theory Spec2Isabelle
  imports Complex_Main
begin

section \<open>Data model\<close>

text \<open>
  JavaScript numbers are modelled as exact rationals (\<^typ>\<open>rat\<close>): the model covers
  the finite numbers and computes without rounding.  Strings are lists of 8-bit
  characters, that is, strings whose code units lie in U+0000 .. U+00FF.
  An abnormal outcome (a thrown exception, a division that leaves the finite numbers) is
  a value of type \<open>js_error\<close>.
\<close>

datatype js_error = TypeError | DivisionByZero

text \<open>\<open>TranscriptLine\<close> (imported from \<open>../types\<close>): the fields the component reads.\<close>

record TranscriptLine =
  line_text :: string
  line_offset :: rat
  line_duration :: rat

text \<open>\<open>interface TranscriptSentence\<close>\<close>

record TranscriptSentence =
  s_text :: string
  s_startOffset :: rat
  s_endOffset :: rat
  s_originalIndex :: nat

text \<open>\<open>interface TranscriptParagraph\<close>\<close>

record TranscriptParagraph =
  p_sentences :: "TranscriptSentence list"
  p_startOffset :: rat
  p_endOffset :: rat

section \<open>Sentence segmentation\<close>

text \<open>
  The regular expression class \<open>\s\<close> and \<open>String.prototype.trim\<close> agree on what white
  space is; below U+0100 these are TAB, LF, VT, FF, CR, SPACE and NBSP.
\<close>

definition is_space :: "char \<Rightarrow> bool" where
  "is_space c =
     (let n = (of_char c :: nat) in (9 \<le> n \<and> n \<le> 13) \<or> n = 32 \<or> n = 160)"

text \<open>The character class \<open>[.!?]\<close>.\<close>

definition is_terminal :: "char \<Rightarrow> bool" where
  "is_terminal c = (c = CHR ''.'' \<or> c = CHR ''!'' \<or> c = CHR ''?'')"

text \<open>
  \<open>text.replace(/([.!?])\s+/g, "$1|")\<close>: scanning from the left, a terminal character
  followed by a maximal non-empty run of white space is replaced by the terminal character
  and a bar; every other character is copied.
\<close>

function replace_terminal_space :: "string \<Rightarrow> string" where
  "replace_terminal_space [] = []"
| "replace_terminal_space [c] = [c]"
| "replace_terminal_space (c # d # ds) =
     (if is_terminal c \<and> is_space d
      then c # CHR ''|'' # replace_terminal_space (dropWhile is_space ds)
      else c # replace_terminal_space (d # ds))"
  by pat_completeness auto
termination
  by (relation "measure length") (auto simp: less_Suc_eq_le length_dropWhile_le le_SucI)

text \<open>\<open>String.prototype.split\<close> with a one-character separator: never the empty array.\<close>

fun js_split :: "char \<Rightarrow> string \<Rightarrow> string list" where
  "js_split sep [] = [[]]"
| "js_split sep (c # cs) =
     (if c = sep then [] # js_split sep cs
      else (case js_split sep cs of
              [] \<Rightarrow> [[c]]
            | p # ps \<Rightarrow> (c # p) # ps))"

text \<open>\<open>String.prototype.trim\<close>\<close>

definition js_trim :: "string \<Rightarrow> string" where
  "js_trim s = rev (dropWhile is_space (rev (dropWhile is_space s)))"

text \<open>\<open>splitIntoSentences\<close>\<close>

definition splitIntoSentences :: "string \<Rightarrow> string list" where
  "splitIntoSentences txt =
     filter (\<lambda>s. length s > 0)
       (map js_trim (js_split CHR ''|'' (replace_terminal_space txt)))"

text \<open>
  Division.  Dividing by zero leaves the finite numbers (JavaScript yields \<open>NaN\<close> or an
  infinity and does not throw); the model records that outcome as \<open>DivisionByZero\<close>.
\<close>

definition js_div :: "rat \<Rightarrow> rat \<Rightarrow> js_error + rat" where
  "js_div a b = (if b = 0 then Inl DivisionByZero else Inr (a / b))"

text \<open>
  \<open>Array.prototype.forEach\<close> with a body that pushes one element onto an array: the
  elements are visited in order, and the first failure ends the loop.
\<close>

fun forEach_push :: "('a \<Rightarrow> js_error + 'b) \<Rightarrow> 'b list \<Rightarrow> 'a list \<Rightarrow> js_error + 'b list" where
  "forEach_push body acc [] = Inr acc"
| "forEach_push body acc (x # xs) =
     (case body x of
        Inl e \<Rightarrow> Inl e
      | Inr y \<Rightarrow> forEach_push body (acc @ [y]) xs)"

text \<open>
  The body of the inner \<open>forEach\<close> of \<open>groupTranscriptIntoParagraphs\<close>: the sentence
  pushed for the piece \<open>sentenceText\<close> at position \<open>sentenceIndex\<close> of \<open>lineSentences\<close>.
\<close>

definition mkSentence ::
  "TranscriptLine \<Rightarrow> nat \<Rightarrow> string list \<Rightarrow> nat \<times> string \<Rightarrow> js_error + TranscriptSentence" where
  "mkSentence line lineIndex lineSentences ix =
     (let sentenceIndex = fst ix; sentenceText = snd ix in
      case js_div (line_duration line) (of_nat (length lineSentences)) of
        Inl e \<Rightarrow> Inl e
      | Inr sentenceDuration \<Rightarrow>
          (let sentenceStartOffset = line_offset line + of_nat sentenceIndex * sentenceDuration
           in Inr \<lparr> s_text = sentenceText,
                    s_startOffset = sentenceStartOffset,
                    s_endOffset = sentenceStartOffset + sentenceDuration,
                    s_originalIndex = lineIndex \<rparr>))"

text \<open>The inner \<open>forEach\<close>: the sentences of one line, pushed onto \<open>sentences\<close>.\<close>

definition pushLine ::
  "TranscriptSentence list \<Rightarrow> nat \<times> TranscriptLine \<Rightarrow> js_error + TranscriptSentence list" where
  "pushLine sentences il =
     (let lineIndex = fst il; line = snd il;
          lineSentences = splitIntoSentences (line_text line)
      in forEach_push (mkSentence line lineIndex lineSentences) sentences
           (enumerate 0 lineSentences))"

text \<open>The outer \<open>forEach\<close>, from any state of \<open>sentences\<close>.\<close>

fun forEach_lines ::
  "TranscriptSentence list \<Rightarrow> (nat \<times> TranscriptLine) list \<Rightarrow> js_error + TranscriptSentence list" where
  "forEach_lines sentences [] = Inr sentences"
| "forEach_lines sentences (il # ils) =
     (case pushLine sentences il of
        Inl e \<Rightarrow> Inl e
      | Inr sentences' \<Rightarrow> forEach_lines sentences' ils)"

text \<open>The array \<open>sentences\<close> when the first loop of \<open>groupTranscriptIntoParagraphs\<close> is over.\<close>

definition transcriptSentences :: "TranscriptLine list \<Rightarrow> js_error + TranscriptSentence list" where
  "transcriptSentences transcriptLines = forEach_lines [] (enumerate 0 transcriptLines)"

section \<open>Paragraph grouping\<close>

text \<open>\<open>Array.prototype.slice(i, j)\<close> for \<open>0 \<le> i \<le> j\<close>.\<close>

definition js_slice :: "'a list \<Rightarrow> nat \<Rightarrow> nat \<Rightarrow> 'a list" where
  "js_slice xs i j = take (j - i) (drop i xs)"

text \<open>
  One paragraph of the second loop.  Reading \<open>paragraphSentences[0].startOffset\<close> of an
  empty slice would throw a \<open>TypeError\<close>.
\<close>

definition mkParagraph :: "TranscriptSentence list \<Rightarrow> js_error + TranscriptParagraph" where
  "mkParagraph paragraphSentences =
     (case paragraphSentences of
        [] \<Rightarrow> Inl TypeError
      | first # _ \<Rightarrow>
          Inr \<lparr> p_sentences = paragraphSentences,
                p_startOffset = s_startOffset first,
                p_endOffset = s_endOffset (last paragraphSentences) \<rparr>)"

text \<open>The paragraph \<open>mkParagraph\<close> returns for a non-empty slice.\<close>

definition paragraphOf :: "TranscriptSentence list \<Rightarrow> TranscriptParagraph" where
  "paragraphOf xs = \<lparr> p_sentences = xs, p_startOffset = s_startOffset (hd xs),
                       p_endOffset = s_endOffset (last xs) \<rparr>"

text \<open>\<open>for (let i = 0; i < sentences.length; i += 3)\<close>, from any \<open>i\<close>.\<close>

function paragraphLoop ::
  "TranscriptSentence list \<Rightarrow> nat \<Rightarrow> TranscriptParagraph list
     \<Rightarrow> js_error + TranscriptParagraph list" where
  "paragraphLoop sentences i paragraphs =
     (if i < length sentences
      then (case mkParagraph (js_slice sentences i (i + 3)) of
              Inl e \<Rightarrow> Inl e
            | Inr p \<Rightarrow> paragraphLoop sentences (i + 3) (paragraphs @ [p]))
      else Inr paragraphs)"
  by pat_completeness auto
termination
  by (relation "measure (\<lambda>(sentences, i, paragraphs). length sentences - i)") auto

definition groupSentences ::
  "TranscriptSentence list \<Rightarrow> js_error + TranscriptParagraph list" where
  "groupSentences sentences = paragraphLoop sentences 0 []"

text \<open>\<open>groupTranscriptIntoParagraphs\<close>\<close>

definition groupTranscriptIntoParagraphs ::
  "TranscriptLine list \<Rightarrow> js_error + TranscriptParagraph list" where
  "groupTranscriptIntoParagraphs transcriptLines =
     (case transcriptSentences transcriptLines of
        Inl e \<Rightarrow> Inl e
      | Inr sentences \<Rightarrow> groupSentences sentences)"

section \<open>Position locator\<close>

text \<open>The state \<open>updateCurrentPosition\<close> may write: the active location.\<close>

record ActiveLocation =
  currentParagraphIndex :: int
  currentSentenceIndex :: int

text \<open>The inner loop \<open>for (let j = 0; j < paragraph.sentences.length; j++)\<close>, from any \<open>j\<close>.\<close>

function sentenceLoop :: "rat \<Rightarrow> TranscriptSentence list \<Rightarrow> nat \<Rightarrow> int" where
  "sentenceLoop currentTimeMs sentences j =
     (if j < length sentences
      then (let sentence = sentences ! j in
            if currentTimeMs \<ge> s_startOffset sentence \<and> currentTimeMs \<le> s_endOffset sentence
            then int j
            else sentenceLoop currentTimeMs sentences (j + 1))
      else - 1)"
  by pat_completeness auto
termination
  by (relation "measure (\<lambda>(t, sentences, j). length sentences - j)") auto

declare sentenceLoop.simps [simp del]

text \<open>
  The outer loop \<open>for (let i = 0; i < transcriptParagraphs.length; i++)\<close>, from any \<open>i\<close>:
  the pair \<open>(newParagraphIndex, newSentenceIndex)\<close> when it is over.
\<close>

function paragraphScan :: "rat \<Rightarrow> TranscriptParagraph list \<Rightarrow> nat \<Rightarrow> int \<times> int" where
  "paragraphScan currentTimeMs transcriptParagraphs i =
     (if i < length transcriptParagraphs
      then (let paragraph = transcriptParagraphs ! i in
            if currentTimeMs \<ge> p_startOffset paragraph \<and> currentTimeMs \<le> p_endOffset paragraph
            then (int i, sentenceLoop currentTimeMs (p_sentences paragraph) 0)
            else paragraphScan currentTimeMs transcriptParagraphs (i + 1))
      else (- 1, - 1))"
  by pat_completeness auto
termination
  by (relation "measure (\<lambda>(t, ps, i). length ps - i)") auto

declare paragraphScan.simps [simp del]

text \<open>
  \<open>updateCurrentPosition\<close>: reads \<open>transcriptParagraphs\<close> and \<open>currentTimestamp\<close> (seconds),
  returns at once on an empty transcript, and writes each index that has changed.
\<close>

definition updateCurrentPosition ::
  "TranscriptParagraph list \<Rightarrow> rat \<Rightarrow> ActiveLocation \<Rightarrow> ActiveLocation" where
  "updateCurrentPosition transcriptParagraphs currentTimestamp st =
     (if length transcriptParagraphs = 0 then st
      else
        (let currentTimeMs = currentTimestamp * 1000;
             found = paragraphScan currentTimeMs transcriptParagraphs 0;
             newParagraphIndex = fst found;
             newSentenceIndex = snd found;
             st1 = (if newParagraphIndex \<noteq> currentParagraphIndex st
                    then st\<lparr> currentParagraphIndex := newParagraphIndex \<rparr> else st);
             st2 = (if newSentenceIndex \<noteq> currentSentenceIndex st1
                    then st1\<lparr> currentSentenceIndex := newSentenceIndex \<rparr> else st1)
         in st2))"

section \<open>Scroll animation\<close>

text \<open>What the auto-scroll effect measures of the transcript container.\<close>

record Container =
  clientHeight :: rat
  scrollHeight :: rat
  containerRectTop :: rat
  scrollTop :: rat

text \<open>What it measures of the element of the current paragraph.\<close>

record ParagraphElement =
  elementRectTop :: rat
  offsetHeight :: rat

text \<open>The variables the closure \<open>animateScroll\<close> captures.\<close>

record ScrollAnimation =
  currentScrollTop :: rat
  scrollDistance :: rat

definition yOffset :: rat where
  "yOffset = - 100"

definition elementRelativeTop :: "Container \<Rightarrow> ParagraphElement \<Rightarrow> rat" where
  "elementRelativeTop container el = elementRectTop el - containerRectTop container + scrollTop container"

definition targetScrollTop :: "Container \<Rightarrow> ParagraphElement \<Rightarrow> rat" where
  "targetScrollTop container el =
     elementRelativeTop container el - (clientHeight container / 2) + (offsetHeight el / 2) - yOffset"

definition maxScrollTop :: "Container \<Rightarrow> rat" where
  "maxScrollTop container = max 0 (scrollHeight container - clientHeight container)"

definition clampedScrollTop :: "Container \<Rightarrow> ParagraphElement \<Rightarrow> rat" where
  "clampedScrollTop container el = max 0 (min (targetScrollTop container el) (maxScrollTop container))"

text \<open>
  The auto-scroll effect up to its first \<open>requestAnimationFrame\<close>: \<open>None\<close> when it
  leaves without starting an animation.  \<open>transcriptContainerRef\<close> is the container
  (\<open>None\<close> for a null ref), \<open>querySelector\<close> finds the element of a paragraph index.
\<close>

definition autoScroll ::
  "int \<Rightarrow> Container option \<Rightarrow> (int \<Rightarrow> ParagraphElement option) \<Rightarrow> ScrollAnimation option" where
  "autoScroll paragraphIndex transcriptContainerRef querySelector =
     (if paragraphIndex \<ge> 0 then
        (case transcriptContainerRef of
           None \<Rightarrow> None
         | Some container \<Rightarrow>
             (case querySelector paragraphIndex of
                None \<Rightarrow> None
              | Some currentParagraphElement \<Rightarrow>
                  if scrollHeight container > clientHeight container then
                    (let distance = clampedScrollTop container currentParagraphElement - scrollTop container
                     in if \<bar>distance\<bar> > 10
                        then Some \<lparr> currentScrollTop = scrollTop container, scrollDistance = distance \<rparr>
                        else None)
                  else None))
      else None)"







section \<open>Timestamps\<close>

















section \<open>URL classification\<close>

text \<open>The properties of a \<open>URL\<close> object that the classifiers read.\<close>

record URL =
  hostname :: string
  pathname :: string
  searchParams :: "(string \<times> string) list"

fun starts_with :: "string \<Rightarrow> string \<Rightarrow> bool" where
  "starts_with s [] = True"
| "starts_with [] (p # ps) = False"
| "starts_with (c # cs) (p # ps) = (c = p \<and> starts_with cs ps)"

text \<open>\<open>String.prototype.includes\<close>\<close>

fun js_includes :: "string \<Rightarrow> string \<Rightarrow> bool" where
  "js_includes [] pat = (pat = [])"
| "js_includes (c # cs) pat = (starts_with (c # cs) pat \<or> js_includes cs pat)"

text \<open>\<open>String.prototype.substring(1)\<close>\<close>

definition substring1 :: "string \<Rightarrow> string" where
  "substring1 s = drop 1 s"

text \<open>\<open>URLSearchParams.prototype.get\<close>: the first value of the name, \<open>None\<close> for \<open>null\<close>.\<close>

fun searchParams_get :: "(string \<times> string) list \<Rightarrow> string \<Rightarrow> string option" where
  "searchParams_get [] name = None"
| "searchParams_get ((k, v) # rest) name = (if k = name then Some v else searchParams_get rest name)"

text \<open>\<open>try { body } catch { handler }\<close>\<close>

definition try_catch :: "js_error + 'a \<Rightarrow> 'a \<Rightarrow> js_error + 'a" where
  "try_catch body handler = (case body of Inl e \<Rightarrow> Inr handler | Inr v \<Rightarrow> Inr v)"

text \<open>
  \<open>getVideoId\<close>.  The constructor \<open>new URL(url)\<close> belongs to the platform; it is the
  parameter \<open>newURL\<close>, which returns the parsed URL or throws a \<open>TypeError\<close>.
\<close>

definition getVideoId :: "(string \<Rightarrow> js_error + URL) \<Rightarrow> string \<Rightarrow> js_error + string option" where
  "getVideoId newURL url =
     try_catch
       (case newURL url of
          Inl e \<Rightarrow> Inl e
        | Inr urlObj \<Rightarrow>
            if js_includes (hostname urlObj) ''youtube.com'' \<or> js_includes (hostname urlObj) ''youtu.be''
            then (if js_includes (hostname urlObj) ''youtu.be''
                  then Inr (Some (substring1 (pathname urlObj)))
                  else Inr (searchParams_get (searchParams urlObj) ''v''))
            else Inr None)
       None"

text \<open>\<open>isYouTubeUrl\<close>\<close>

definition isYouTubeUrl :: "(string \<Rightarrow> js_error + URL) \<Rightarrow> string \<Rightarrow> js_error + bool" where
  "isYouTubeUrl newURL url =
     try_catch
       (case newURL url of
          Inl e \<Rightarrow> Inl e
        | Inr urlObj \<Rightarrow>
            Inr (js_includes (hostname urlObj) ''youtube.com'' \<or> js_includes (hostname urlObj) ''youtu.be''))
       False"

section \<open>Example transcripts\<close>

text \<open>
  Three caption lines in temporal order, the second with duration zero: the instant 6000
  ends the first line and both starts and ends the second, and starts the third.
\<close>

definition tieLines :: "TranscriptLine list" where
  "tieLines =
     [\<lparr> line_text = ''a. b. c.'', line_offset = 0, line_duration = 6000 \<rparr>,
      \<lparr> line_text = ''d. e. f.'', line_offset = 6000, line_duration = 0 \<rparr>,
      \<lparr> line_text = ''g.'', line_offset = 6000, line_duration = 3000 \<rparr>]"

definition tieParagraphs :: "TranscriptParagraph list" where
  "tieParagraphs =
     [\<lparr> p_sentences =
          [\<lparr> s_text = ''a.'', s_startOffset = 0, s_endOffset = 2000, s_originalIndex = 0 \<rparr>,
           \<lparr> s_text = ''b.'', s_startOffset = 2000, s_endOffset = 4000, s_originalIndex = 0 \<rparr>,
           \<lparr> s_text = ''c.'', s_startOffset = 4000, s_endOffset = 6000, s_originalIndex = 0 \<rparr>],
        p_startOffset = 0, p_endOffset = 6000 \<rparr>,
      \<lparr> p_sentences =
          [\<lparr> s_text = ''d.'', s_startOffset = 6000, s_endOffset = 6000, s_originalIndex = 1 \<rparr>,
           \<lparr> s_text = ''e.'', s_startOffset = 6000, s_endOffset = 6000, s_originalIndex = 1 \<rparr>,
           \<lparr> s_text = ''f.'', s_startOffset = 6000, s_endOffset = 6000, s_originalIndex = 1 \<rparr>],
        p_startOffset = 6000, p_endOffset = 6000 \<rparr>,
      \<lparr> p_sentences =
          [\<lparr> s_text = ''g.'', s_startOffset = 6000, s_endOffset = 9000, s_originalIndex = 2 \<rparr>],
        p_startOffset = 6000, p_endOffset = 9000 \<rparr>]"

text \<open>Three caption lines with silence between them: one paragraph with gaps.\<close>

definition gapLines :: "TranscriptLine list" where
  "gapLines =
     [\<lparr> line_text = ''a'', line_offset = 0, line_duration = 1000 \<rparr>,
      \<lparr> line_text = ''b'', line_offset = 3000, line_duration = 1000 \<rparr>,
      \<lparr> line_text = ''c'', line_offset = 5000, line_duration = 1000 \<rparr>]"

definition gapParagraphs :: "TranscriptParagraph list" where
  "gapParagraphs =
     [\<lparr> p_sentences =
          [\<lparr> s_text = ''a'', s_startOffset = 0, s_endOffset = 1000, s_originalIndex = 0 \<rparr>,
           \<lparr> s_text = ''b'', s_startOffset = 3000, s_endOffset = 4000, s_originalIndex = 1 \<rparr>,
           \<lparr> s_text = ''c'', s_startOffset = 5000, s_endOffset = 6000, s_originalIndex = 2 \<rparr>],
        p_startOffset = 0, p_endOffset = 6000 \<rparr>]"

section \<open>Properties of the sentence segmentation\<close>


lemma forEach_push_total:
  "(\<And>x. x \<in> set xs \<Longrightarrow> body x = Inr (g x)) \<Longrightarrow>
   forEach_push body acc xs = Inr (acc @ map g xs)"
  by (induction xs arbitrary: acc) simp_all

lemma mkSentence_ok:
  "lineSentences \<noteq> [] \<Longrightarrow>
   mkSentence line lineIndex lineSentences (i, t) =
     Inr \<lparr> s_text = t,
           s_startOffset = line_offset line + of_nat i * (line_duration line / of_nat (length lineSentences)),
           s_endOffset = line_offset line + of_nat i * (line_duration line / of_nat (length lineSentences))
                           + line_duration line / of_nat (length lineSentences),
           s_originalIndex = lineIndex \<rparr>"
  by (simp add: mkSentence_def js_div_def Let_def)

lemma pushLine_eq:
  "pushLine acc (lineIndex, line) =
     Inr (acc @ map (\<lambda>(i, t).
             \<lparr> s_text = t,
               s_startOffset = line_offset line + of_nat i * (line_duration line / of_nat (length (splitIntoSentences (line_text line)))),
               s_endOffset = line_offset line + of_nat i * (line_duration line / of_nat (length (splitIntoSentences (line_text line))))
                           + line_duration line / of_nat (length (splitIntoSentences (line_text line))),
               s_originalIndex = lineIndex \<rparr>)
           (enumerate 0 (splitIntoSentences (line_text line))))"
  (is "_ = Inr (acc @ map ?g (enumerate 0 ?ls))")
proof -
  have "\<And>x. x \<in> set (enumerate 0 ?ls) \<Longrightarrow> mkSentence line lineIndex ?ls x = Inr (?g x)"
  proof -
    fix x assume "x \<in> set (enumerate 0 ?ls)"
    then have "?ls \<noteq> []" by auto
    then show "mkSentence line lineIndex ?ls x = Inr (?g x)"
      by (cases x) (simp add: mkSentence_ok)
  qed
  then show ?thesis
    unfolding pushLine_def Let_def fst_conv snd_conv by (rule forEach_push_total)
qed






section \<open>Properties of the paragraph grouping\<close>


lemma mkParagraph_nonempty: "xs \<noteq> [] \<Longrightarrow> mkParagraph xs = Inr (paragraphOf xs)"
  by (cases xs) (simp_all add: mkParagraph_def paragraphOf_def)

lemma js_slice_3: "js_slice xs i (i + 3) = take 3 (drop i xs)"
  by (simp add: js_slice_def)

lemma chunk_count_step:
  "i < n \<Longrightarrow> (n - i + 2) div 3 = Suc ((n - (i + 3) + 2) div 3)"
  by (cases "n - i \<ge> 3") (auto simp: le_div_geq)

lemma upt_0_Suc: "[0..<Suc m] = 0 # map Suc [0..<m]"
  by (simp only: map_Suc_upt upt_conv_Cons[OF zero_less_Suc])

lemma paragraphLoop_closed:
  "paragraphLoop ss i acc =
     Inr (acc @ map (\<lambda>k. paragraphOf (take 3 (drop (i + 3 * k) ss)))
                  [0 ..< (length ss - i + 2) div 3])"
proof (induction ss i acc rule: paragraphLoop.induct)
  case (1 sentences i paragraphs)
  show ?case
  proof (cases "i < length sentences")
    case False
    then have "(length sentences - i + 2) div 3 = 0" by simp
    with False show ?thesis by (simp del: paragraphLoop.simps add: paragraphLoop.simps[of sentences i paragraphs])
  next
    case True
    let ?c = "take 3 (drop i sentences)"
    have ne: "?c \<noteq> []" using True by simp
    have mk: "mkParagraph (js_slice sentences i (i + 3)) = Inr (paragraphOf ?c)"
      by (simp only: js_slice_3 mkParagraph_nonempty[OF ne])
    have IH: "paragraphLoop sentences (i + 3) (paragraphs @ [paragraphOf ?c]) =
        Inr ((paragraphs @ [paragraphOf ?c]) @
          map (\<lambda>k. paragraphOf (take 3 (drop (i + 3 + 3 * k) sentences)))
            [0..<(length sentences - (i + 3) + 2) div 3])"
      using "1.IH"[OF True mk] .
    have step: "paragraphLoop sentences i paragraphs =
          paragraphLoop sentences (i + 3) (paragraphs @ [paragraphOf ?c])"
      using True mk by (subst paragraphLoop.simps) simp
    have idx: "[0..<(length sentences - i + 2) div 3] =
          0 # map Suc [0..<(length sentences - (i + 3) + 2) div 3]"
      unfolding chunk_count_step[OF True] by (rule upt_0_Suc)
    show ?thesis
      unfolding step IH idx by (simp add: comp_def add.assoc del: paragraphLoop.simps)
  qed
qed


lemma groupSentences_closed:
  "groupSentences ss =
     Inr (map (\<lambda>k. paragraphOf (take 3 (drop (3 * k) ss))) [0 ..< (length ss + 2) div 3])"
  unfolding groupSentences_def paragraphLoop_closed[of ss 0 "[]"] by simp

lemma concat_chunks_take:
  "concat (map (\<lambda>k. take 3 (drop (3 * k) xs)) [0 ..< m]) = take (3 * m) xs"
proof (induction m)
  case 0
  show ?case by simp
next
  case (Suc m)
  have "3 * Suc m = 3 * m + 3" by simp
  then have "take (3 * Suc m) xs = take (3 * m) xs @ take 3 (drop (3 * m) xs)"
    by (simp only: take_add)
  with Suc show ?case by simp
qed

lemma concat_chunks: "concat (map (\<lambda>k. take 3 (drop (3 * k) xs)) [0 ..< (length xs + 2) div 3]) = xs"
  unfolding concat_chunks_take by (rule take_all) arith

lemma chunk_count_ceiling: "int ((n + 2) div 3) = \<lceil>rat_of_nat n / 3\<rceil>"
proof -
  have "\<lceil>rat_of_nat n / 3\<rceil> = \<lceil>rat_of_int (int n) / rat_of_int 3\<rceil>" by simp
  also have "\<dots> = - ((- int n) div 3)" by (simp only: ceiling_divide_eq_div)
  also have "\<dots> = int ((n + 2) div 3)" by (simp add: zdiv_int)
  finally show ?thesis by simp
qed

lemma chunk_length:
  assumes "k < (length xs + 2) div 3"
  shows "1 \<le> length (take 3 (drop (3 * k) xs))" "length (take 3 (drop (3 * k) xs)) \<le> 3"
    "Suc k < (length xs + 2) div 3 \<Longrightarrow> length (take 3 (drop (3 * k) xs)) = 3"
  using assms by auto

text \<open>
  Claim C2.  For every sequence of \<open>N\<close> sentences the grouping loop returns normally, with
  \<open>\<lceil>N / 3\<rceil>\<close> paragraphs; paragraph \<open>k\<close> holds the sentences \<open>3k, 3k + 1, 3k + 2\<close> that
  exist, so the paragraphs cover the sentences exactly once and in order; every paragraph
  but the last has exactly three sentences and none is empty; the offsets of a paragraph
  are the start of its first and the end of its last sentence; no sentences give no
  paragraphs, and seven sentences give paragraphs of sizes 3, 3 and 1.
\<close>

theorem paragraph_grouper:
  "\<exists>ps. groupSentences ss = Inr ps
     \<and> int (length ps) = \<lceil>rat_of_nat (length ss) / 3\<rceil>
     \<and> concat (map p_sentences ps) = ss
     \<and> (\<forall>k<length ps.
           p_sentences (ps ! k) = take 3 (drop (3 * k) ss)
         \<and> 1 \<le> length (p_sentences (ps ! k)) \<and> length (p_sentences (ps ! k)) \<le> 3
         \<and> (Suc k < length ps \<longrightarrow> length (p_sentences (ps ! k)) = 3)
         \<and> p_startOffset (ps ! k) = s_startOffset (p_sentences (ps ! k) ! 0)
         \<and> p_endOffset (ps ! k) = s_endOffset (p_sentences (ps ! k) ! (length (p_sentences (ps ! k)) - 1)))
     \<and> (ss = [] \<longrightarrow> ps = [])
     \<and> (length ss = 7 \<longrightarrow> map (\<lambda>p. length (p_sentences p)) ps = [3, 3, 1])"
proof -
  let ?m = "(length ss + 2) div 3"
  let ?c = "\<lambda>k. take 3 (drop (3 * k) ss)"
  let ?ps = "map (\<lambda>k. paragraphOf (?c k)) [0 ..< ?m]"
  have len: "length ?ps = ?m" by simp
  have nth: "\<And>k. k < ?m \<Longrightarrow> ?ps ! k = paragraphOf (?c k)" by simp
  have sents: "map p_sentences ?ps = map ?c [0 ..< ?m]" by (simp add: paragraphOf_def)
  have A: "groupSentences ss = Inr ?ps" by (rule groupSentences_closed)
  have B: "int (length ?ps) = \<lceil>rat_of_nat (length ss) / 3\<rceil>"
    unfolding len by (rule chunk_count_ceiling)
  have C: "concat (map p_sentences ?ps) = ss" unfolding sents by (rule concat_chunks)
  have D: "\<forall>k<length ?ps.
           p_sentences (?ps ! k) = ?c k
         \<and> 1 \<le> length (p_sentences (?ps ! k)) \<and> length (p_sentences (?ps ! k)) \<le> 3
         \<and> (Suc k < length ?ps \<longrightarrow> length (p_sentences (?ps ! k)) = 3)
         \<and> p_startOffset (?ps ! k) = s_startOffset (p_sentences (?ps ! k) ! 0)
         \<and> p_endOffset (?ps ! k) = s_endOffset (p_sentences (?ps ! k) ! (length (p_sentences (?ps ! k)) - 1))"
  proof (intro allI impI)
    fix k assume "k < length ?ps"
    then have k: "k < ?m" by simp
    have ne: "?c k \<noteq> []" using chunk_length(1)[OF k] by auto
    have ps: "p_sentences (?ps ! k) = ?c k" by (simp only: nth[OF k]) (simp add: paragraphOf_def)
    have st: "p_startOffset (?ps ! k) = s_startOffset (?c k ! 0)"
      by (simp only: nth[OF k]) (simp add: paragraphOf_def hd_conv_nth[OF ne])
    have en: "p_endOffset (?ps ! k) = s_endOffset (?c k ! (length (?c k) - 1))"
      by (simp only: nth[OF k]) (simp add: paragraphOf_def last_conv_nth[OF ne])
    show "p_sentences (?ps ! k) = ?c k
         \<and> 1 \<le> length (p_sentences (?ps ! k)) \<and> length (p_sentences (?ps ! k)) \<le> 3
         \<and> (Suc k < length ?ps \<longrightarrow> length (p_sentences (?ps ! k)) = 3)
         \<and> p_startOffset (?ps ! k) = s_startOffset (p_sentences (?ps ! k) ! 0)
         \<and> p_endOffset (?ps ! k) = s_endOffset (p_sentences (?ps ! k) ! (length (p_sentences (?ps ! k)) - 1))"
      unfolding ps len using chunk_length[OF k] st en by simp
  qed
  have E: "ss = [] \<longrightarrow> ?ps = []" by simp
  have F: "length ss = 7 \<longrightarrow> map (\<lambda>p. length (p_sentences p)) ?ps = [3, 3, 1]"
  proof
    assume l: "length ss = 7"
    have u: "[0..<3] = [0, 1, 2]" by (simp add: upt_rec)
    show "map (\<lambda>p. length (p_sentences p)) ?ps = [3, 3, 1]"
      by (simp add: l u paragraphOf_def)
  qed
  show ?thesis
    by (rule exI[of _ ?ps]) (intro conjI A B C D E F)
qed


text \<open>
  Seven one-second sentences give three paragraphs, of sizes 3, 3 and 1; no sentences give
  no paragraphs.
\<close>

theorem paragraph_grouper_witness:
  "(\<exists>ps. groupSentences
          (map (\<lambda>i. \<lparr> s_text = ''s'', s_startOffset = of_nat i * 1000,
                       s_endOffset = of_nat i * 1000 + 1000, s_originalIndex = i \<rparr>) [0 ..< 7]) = Inr ps
     \<and> length ps = 3
     \<and> map (\<lambda>p. length (p_sentences p)) ps = [3, 3, 1]
     \<and> p_startOffset (ps ! 2) = 6000 \<and> p_endOffset (ps ! 2) = 7000
     \<and> p_startOffset (ps ! 0) = 0 \<and> p_endOffset (ps ! 0) = 3000)
   \<and> groupSentences [] = Inr []"
proof -
  let ?ss = "map (\<lambda>i. \<lparr> s_text = ''s'', s_startOffset = of_nat i * 1000,
                       s_endOffset = of_nat i * 1000 + 1000, s_originalIndex = i \<rparr>) [0 ..< 7]"
  have u: "[0..<7] = [0, 1, 2, 3, 4, 5, 6]" by (simp add: upt_rec)
  have "\<exists>ps. groupSentences ?ss = Inr ps
     \<and> int (length ps) = \<lceil>rat_of_nat (length ?ss) / 3\<rceil>
     \<and> concat (map p_sentences ps) = ?ss
     \<and> (\<forall>k<length ps.
           p_sentences (ps ! k) = take 3 (drop (3 * k) ?ss)
         \<and> 1 \<le> length (p_sentences (ps ! k)) \<and> length (p_sentences (ps ! k)) \<le> 3
         \<and> (Suc k < length ps \<longrightarrow> length (p_sentences (ps ! k)) = 3)
         \<and> p_startOffset (ps ! k) = s_startOffset (p_sentences (ps ! k) ! 0)
         \<and> p_endOffset (ps ! k) = s_endOffset (p_sentences (ps ! k) ! (length (p_sentences (ps ! k)) - 1)))
     \<and> (?ss = [] \<longrightarrow> ps = [])
     \<and> (length ?ss = 7 \<longrightarrow> map (\<lambda>p. length (p_sentences p)) ps = [3, 3, 1])"
    by (rule paragraph_grouper[of ?ss])
  then obtain ps where
    g: "groupSentences ?ss = Inr ps" and
    l: "int (length ps) = \<lceil>rat_of_nat (length ?ss) / 3\<rceil>" and
    k: "\<forall>k<length ps.
           p_sentences (ps ! k) = take 3 (drop (3 * k) ?ss)
         \<and> 1 \<le> length (p_sentences (ps ! k)) \<and> length (p_sentences (ps ! k)) \<le> 3
         \<and> (Suc k < length ps \<longrightarrow> length (p_sentences (ps ! k)) = 3)
         \<and> p_startOffset (ps ! k) = s_startOffset (p_sentences (ps ! k) ! 0)
         \<and> p_endOffset (ps ! k) = s_endOffset (p_sentences (ps ! k) ! (length (p_sentences (ps ! k)) - 1))" and
    s: "length ?ss = 7 \<longrightarrow> map (\<lambda>p. length (p_sentences p)) ps = [3, 3, 1]"
    by (elim exE conjE)
  have c: "\<lceil>(7::rat) / 3\<rceil> = 3" by (rule ceiling_unique) simp_all
  have l3: "length ps = 3" using l by (simp add: c)
  have s3: "map (\<lambda>p. length (p_sentences p)) ps = [3, 3, 1]" using s by simp
  have k0: "p_startOffset (ps ! 0) = 0 \<and> p_endOffset (ps ! 0) = 3000"
    using k[rule_format, of 0] l3 by (simp add: u)
  have k2: "p_startOffset (ps ! 2) = 6000 \<and> p_endOffset (ps ! 2) = 7000"
    using k[rule_format, of 2] l3 by (simp add: u)
  have seven: "\<exists>ps. groupSentences ?ss = Inr ps
     \<and> length ps = 3
     \<and> map (\<lambda>p. length (p_sentences p)) ps = [3, 3, 1]
     \<and> p_startOffset (ps ! 2) = 6000 \<and> p_endOffset (ps ! 2) = 7000
     \<and> p_startOffset (ps ! 0) = 0 \<and> p_endOffset (ps ! 0) = 3000"
    using g l3 s3 k0 k2 by (intro exI[of _ ps] conjI) simp_all
  have none: "groupSentences [] = Inr []"
    using paragraph_grouper[of "[]"] by auto
  from seven none show ?thesis by (rule conjI)
qed

section \<open>Safety of the sentence segmentation\<close>

lemma forEach_lines_total: "\<exists>ss. forEach_lines acc ils = Inr (acc @ ss)"
proof (induction ils arbitrary: acc)
  case Nil
  show ?case by simp
next
  case (Cons il ils)
  obtain i line where il: "il = (i, line)" by (cases il)
  obtain new where p: "pushLine acc il = Inr (acc @ new)"
    unfolding il using pushLine_eq[of acc i line] by blast
  from Cons.IH[of "acc @ new"] obtain ss where "forEach_lines (acc @ new) ils = Inr ((acc @ new) @ ss)"
    by blast
  with p show ?case by (intro exI[of _ "new @ ss"]) simp
qed

text \<open>
  The first loop never divides by zero: it always returns the array of sentences, which
  holds the sentences of the lines in the order of the lines.
\<close>

lemma forEach_lines_concat:
  "forEach_lines acc ils = Inr (acc @ concat (map (\<lambda>il. projr (pushLine [] il)) ils))"
proof (induction ils arbitrary: acc)
  case Nil
  show ?case by simp
next
  case (Cons il ils)
  obtain i line where il: "il = (i, line)" by (cases il)
  obtain new where p: "pushLine acc il = Inr (acc @ new)" "pushLine [] il = Inr new"
    unfolding il using pushLine_eq[of acc i line] pushLine_eq[of "[]" i line] by simp
  show ?case using Cons.IH[of "acc @ new"] p by simp
qed

lemma transcriptSentences_concat:
  "transcriptSentences transcriptLines =
     Inr (concat (map (\<lambda>il. projr (pushLine [] il)) (enumerate 0 transcriptLines)))"
  unfolding transcriptSentences_def using forEach_lines_concat[of "[]"] by simp


lemma transcriptSentences_total: "\<exists>ss. transcriptSentences transcriptLines = Inr ss"
  unfolding transcriptSentences_def using forEach_lines_total[of "[]"] by simp

lemma groupTranscriptIntoParagraphs_total:
  "\<exists>ps. groupTranscriptIntoParagraphs transcriptLines = Inr ps"
proof -
  obtain ss where "transcriptSentences transcriptLines = Inr ss"
    using transcriptSentences_total by blast
  then show ?thesis by (simp add: groupTranscriptIntoParagraphs_def groupSentences_closed)
qed

text \<open>A line that yields no sentence pushes nothing.\<close>

lemma pushLine_no_sentence:
  "splitIntoSentences (line_text line) = [] \<Longrightarrow> pushLine acc (i, line) = Inr acc"
  by (simp add: pushLine_eq)

text \<open>The sentences of a line with duration zero all start and end at the offset of the line.\<close>

lemma pushLine_zero_duration:
  assumes "line_duration line = 0" "pushLine acc (i, line) = Inr (acc @ new)" "s \<in> set new"
  shows "s_startOffset s = line_offset line \<and> s_endOffset s = line_offset line"
  using assms by (auto simp: pushLine_eq)

text \<open>Trimming leaves no white space at either end.\<close>

lemma js_trim_ends:
  assumes "js_trim x \<noteq> []"
  shows "\<not> is_space (hd (js_trim x))" "\<not> is_space (last (js_trim x))"
proof -
  let ?z = "dropWhile is_space x"
  let ?w = "dropWhile is_space (rev ?z)"
  have t: "js_trim x = rev ?w" by (simp add: js_trim_def)
  with assms have w: "?w \<noteq> []" by simp
  have z: "?z \<noteq> []"
  proof
    assume "?z = []"
    then have "?w = []" by (simp only: rev.simps dropWhile.simps)
    with w show False by blast
  qed
  have "\<not> is_space (hd ?w)" using w by (rule hd_dropWhile)
  then show "\<not> is_space (last (js_trim x))" using w by (simp add: t last_rev)
  have "rev ?z = takeWhile is_space (rev ?z) @ ?w" by simp
  then have "?z = rev ?w @ rev (takeWhile is_space (rev ?z))"
    by (metis rev_append rev_rev_ident)
  then have "hd ?z = hd (rev ?w)" using w by (metis hd_append2 rev_is_Nil_conv)
  moreover have "\<not> is_space (hd ?z)" using z by (rule hd_dropWhile)
  ultimately show "\<not> is_space (hd (js_trim x))" by (simp add: t)
qed

text \<open>The divisor counts pieces that are not empty and have no white space at their ends.\<close>

lemma splitIntoSentences_pieces:
  assumes "s \<in> set (splitIntoSentences txt)"
  shows "s \<noteq> [] \<and> \<not> is_space (hd s) \<and> \<not> is_space (last s)"
proof -
  from assms obtain x where "s = js_trim x" "s \<noteq> []"
    by (auto simp: splitIntoSentences_def)
  then show ?thesis using js_trim_ends[of x] by simp
qed

lemma replace_terminal_space_id:
  "list_all (\<lambda>c. \<not> is_terminal c) txt \<Longrightarrow> replace_terminal_space txt = txt"
  by (induction "txt" rule: replace_terminal_space.induct) simp_all

lemma js_split_one: "sep \<notin> set s \<Longrightarrow> js_split sep s = [s]"
  by (induction s) auto

text \<open>
  A text without terminal punctuation and without a bar is one sentence when it has a
  character that is not white space, and no sentence otherwise.
\<close>

lemma splitIntoSentences_plain:
  assumes "list_all (\<lambda>c. \<not> is_terminal c) txt" "CHR ''|'' \<notin> set txt"
  shows "splitIntoSentences txt = (if list_all is_space txt then [] else [js_trim txt])"
proof -
  have sp: "map js_trim (js_split CHR ''|'' (replace_terminal_space txt)) = [js_trim txt]"
    using assms by (simp add: replace_terminal_space_id js_split_one)
  have "js_trim txt = [] \<longleftrightarrow> list_all is_space txt"
  proof
    assume "list_all is_space txt"
    then have "dropWhile is_space txt = []" by (simp add: list_all_iff)
    then show "js_trim txt = []" unfolding js_trim_def by (simp only: rev.simps dropWhile.simps)
  next
    assume e: "js_trim txt = []"
    show "list_all is_space txt"
    proof (rule ccontr)
      assume "\<not> list_all is_space txt"
      then have z: "dropWhile is_space txt \<noteq> []" by (simp add: list_all_iff dropWhile_eq_Nil_conv)
      then have "\<not> is_space (hd (dropWhile is_space txt))" by (rule hd_dropWhile)
      moreover have "hd (dropWhile is_space txt) \<in> set (rev (dropWhile is_space txt))"
        using z by simp
      ultimately have "dropWhile is_space (rev (dropWhile is_space txt)) \<noteq> []"
        by (metis dropWhile_eq_Nil_conv)
      with e show False by (simp add: js_trim_def)
    qed
  qed
  then show ?thesis by (simp add: splitIntoSentences_def sp)
qed

text \<open>
  Claim C9 (the code departs from it).  A caption line without terminal punctuation whose
  text holds a bar is split at the bar: the line \<open>a|b\<close> of 4000 ms yields two sentences of
  2000 ms each, not one sentence spanning the line.
\<close>

theorem segmenter_splits_at_bar:
  "list_all (\<lambda>c. \<not> is_terminal c) ''a|b''
   \<and> splitIntoSentences ''a|b'' = [''a'', ''b'']
   \<and> transcriptSentences [\<lparr> line_text = ''a|b'', line_offset = 0, line_duration = 4000 \<rparr>]
       = Inr [\<lparr> s_text = ''a'', s_startOffset = 0, s_endOffset = 2000, s_originalIndex = 0 \<rparr>,
              \<lparr> s_text = ''b'', s_startOffset = 2000, s_endOffset = 4000, s_originalIndex = 0 \<rparr>]"
  by code_simp

section \<open>Properties of the position locator\<close>

lemma sentenceLoop_first:
  "j0 \<le> j \<Longrightarrow> j < length ss \<Longrightarrow>
   s_startOffset (ss ! j) \<le> t \<and> t \<le> s_endOffset (ss ! j) \<Longrightarrow>
   (\<forall>j'. j0 \<le> j' \<and> j' < j \<longrightarrow> \<not> (s_startOffset (ss ! j') \<le> t \<and> t \<le> s_endOffset (ss ! j'))) \<Longrightarrow>
   sentenceLoop t ss j0 = int j"
proof (induction t ss j0 rule: sentenceLoop.induct)
  case (1 t ss j0)
  show ?case
  proof (cases "j0 = j")
    case True
    with "1.prems" show ?thesis by (subst sentenceLoop.simps) simp
  next
    case False
    with "1.prems" have lt: "j0 < j" and j0: "j0 < length ss" by auto
    have miss: "\<not> (t \<ge> s_startOffset (ss ! j0) \<and> t \<le> s_endOffset (ss ! j0))"
      using "1.prems"(4) lt by auto
    have "sentenceLoop t ss (j0 + 1) = int j"
      using "1.IH"[OF j0 refl miss] "1.prems" lt by auto
    with j0 miss show ?thesis by (subst sentenceLoop.simps) (auto simp: Let_def)
  qed
qed

lemma sentenceLoop_none:
  "(\<forall>j. j0 \<le> j \<and> j < length ss \<longrightarrow> \<not> (s_startOffset (ss ! j) \<le> t \<and> t \<le> s_endOffset (ss ! j))) \<Longrightarrow>
   sentenceLoop t ss j0 = - 1"
proof (induction t ss j0 rule: sentenceLoop.induct)
  case (1 t ss j0)
  show ?case
  proof (cases "j0 < length ss")
    case False
    then show ?thesis by (subst sentenceLoop.simps) simp
  next
    case True
    have miss: "\<not> (t \<ge> s_startOffset (ss ! j0) \<and> t \<le> s_endOffset (ss ! j0))"
      using "1.prems" True by auto
    have "sentenceLoop t ss (j0 + 1) = - 1"
      using "1.IH"[OF True refl miss] "1.prems" by auto
    with True miss show ?thesis by (subst sentenceLoop.simps) (auto simp: Let_def)
  qed
qed

lemma paragraphScan_first:
  "i0 \<le> k \<Longrightarrow> k < length ps \<Longrightarrow>
   p_startOffset (ps ! k) \<le> t \<and> t \<le> p_endOffset (ps ! k) \<Longrightarrow>
   (\<forall>i. i0 \<le> i \<and> i < k \<longrightarrow> \<not> (p_startOffset (ps ! i) \<le> t \<and> t \<le> p_endOffset (ps ! i))) \<Longrightarrow>
   paragraphScan t ps i0 = (int k, sentenceLoop t (p_sentences (ps ! k)) 0)"
proof (induction t ps i0 rule: paragraphScan.induct)
  case (1 t ps i0)
  show ?case
  proof (cases "i0 = k")
    case True
    with "1.prems" show ?thesis by (subst paragraphScan.simps) simp
  next
    case False
    with "1.prems" have lt: "i0 < k" and i0: "i0 < length ps" by auto
    have miss: "\<not> (t \<ge> p_startOffset (ps ! i0) \<and> t \<le> p_endOffset (ps ! i0))"
      using "1.prems"(4) lt by auto
    have "paragraphScan t ps (i0 + 1) = (int k, sentenceLoop t (p_sentences (ps ! k)) 0)"
      using "1.IH"[OF i0 refl miss] "1.prems" lt by auto
    with i0 miss show ?thesis by (subst paragraphScan.simps) (auto simp: Let_def)
  qed
qed

lemma paragraphScan_none:
  "(\<forall>i. i0 \<le> i \<and> i < length ps \<longrightarrow> \<not> (p_startOffset (ps ! i) \<le> t \<and> t \<le> p_endOffset (ps ! i))) \<Longrightarrow>
   paragraphScan t ps i0 = (- 1, - 1)"
proof (induction t ps i0 rule: paragraphScan.induct)
  case (1 t ps i0)
  show ?case
  proof (cases "i0 < length ps")
    case False
    then show ?thesis by (subst paragraphScan.simps) simp
  next
    case True
    have miss: "\<not> (t \<ge> p_startOffset (ps ! i0) \<and> t \<le> p_endOffset (ps ! i0))"
      using "1.prems" True by auto
    have "paragraphScan t ps (i0 + 1) = (- 1, - 1)"
      using "1.IH"[OF True refl miss] "1.prems" by auto
    with True miss show ?thesis by (subst paragraphScan.simps) (auto simp: Let_def)
  qed
qed

text \<open>The location after an update on a non-empty transcript is the pair the scan found.\<close>

lemma updateCurrentPosition_nonempty:
  "ps \<noteq> [] \<Longrightarrow>
   updateCurrentPosition ps ts st =
     \<lparr> currentParagraphIndex = fst (paragraphScan (ts * 1000) ps 0),
       currentSentenceIndex = snd (paragraphScan (ts * 1000) ps 0) \<rparr>"
  by (simp add: updateCurrentPosition_def Let_def)

lemma updateCurrentPosition_empty: "updateCurrentPosition [] ts st = st"
  by (simp add: updateCurrentPosition_def)

lemma all_less_two: "(\<forall>i<(2::nat). P i) \<longleftrightarrow> P 0 \<and> P 1"
  by (auto simp: less_2_cases_iff)

text \<open>Among the indices below a bound that satisfy a property, there is a first one.\<close>

lemma first_index:
  "P (k::nat) \<Longrightarrow> \<exists>m\<le>k. P m \<and> (\<forall>i<m. \<not> P i)"
proof (induction k rule: less_induct)
  case (less k)
  show ?case
  proof (cases "\<forall>i<k. \<not> P i")
    case True
    with less.prems show ?thesis by blast
  next
    case False
    then obtain i where "i < k" "P i" by blast
    from less.IH[OF this] obtain m where "m \<le> i" "P m" "\<forall>i<m. \<not> P i" by blast
    with \<open>i < k\<close> show ?thesis by (intro exI[of _ m]) simp
  qed
qed


text \<open>
  Claim C3 (amended).  The locator selects the first paragraph whose inclusive range holds
  the current time and, within it, the first such sentence.  Hence at an instant that ends
  unit \<open>k\<close> and starts unit \<open>k + 1\<close>, and lies in the range of unit \<open>k\<close>, the unit selected
  is \<open>k\<close> or an earlier one, never \<open>k + 1\<close>; it is \<open>k\<close> when no earlier unit holds the instant.
\<close>

theorem locator_first_match:
  "(let t = currentTimestamp * 1000;
        loc = updateCurrentPosition ps currentTimestamp st in
    (k < length ps
       \<and> (p_startOffset (ps ! k) \<le> t \<and> t \<le> p_endOffset (ps ! k))
       \<and> (\<forall>i<k. \<not> (p_startOffset (ps ! i) \<le> t \<and> t \<le> p_endOffset (ps ! i)))
     \<longrightarrow> currentParagraphIndex loc = int k
        \<and> (j < length (p_sentences (ps ! k))
             \<and> (s_startOffset (p_sentences (ps ! k) ! j) \<le> t \<and> t \<le> s_endOffset (p_sentences (ps ! k) ! j))
             \<and> (\<forall>i<j. \<not> (s_startOffset (p_sentences (ps ! k) ! i) \<le> t
                         \<and> t \<le> s_endOffset (p_sentences (ps ! k) ! i)))
           \<longrightarrow> currentSentenceIndex loc = int j)
        \<and> (Suc j < length (p_sentences (ps ! k))
             \<and> s_startOffset (p_sentences (ps ! k) ! j) \<le> t
             \<and> s_endOffset (p_sentences (ps ! k) ! j) = t
             \<and> s_startOffset (p_sentences (ps ! k) ! Suc j) = t
           \<longrightarrow> 0 \<le> currentSentenceIndex loc \<and> currentSentenceIndex loc \<le> int j))
    \<and> (Suc k < length ps
         \<and> p_startOffset (ps ! k) \<le> t
         \<and> p_endOffset (ps ! k) = t
         \<and> p_startOffset (ps ! Suc k) = t
       \<longrightarrow> 0 \<le> currentParagraphIndex loc \<and> currentParagraphIndex loc \<le> int k))"
proof -
  let ?t = "currentTimestamp * 1000"
  let ?loc = "updateCurrentPosition ps currentTimestamp st"
  let ?inP = "\<lambda>i. p_startOffset (ps ! i) \<le> ?t \<and> ?t \<le> p_endOffset (ps ! i)"
  have first: "currentParagraphIndex ?loc = int m
        \<and> currentSentenceIndex ?loc = sentenceLoop ?t (p_sentences (ps ! m)) 0"
    if m: "m < length ps" "?inP m" "\<forall>i<m. \<not> ?inP i" for m
  proof -
    from m(1) have ne: "ps \<noteq> []" by auto
    have "paragraphScan ?t ps 0 = (int m, sentenceLoop ?t (p_sentences (ps ! m)) 0)"
      using m by (intro paragraphScan_first) auto
    then show ?thesis by (simp add: updateCurrentPosition_nonempty[OF ne])
  qed
  have A: "currentParagraphIndex ?loc = int k
        \<and> (j < length (p_sentences (ps ! k))
             \<and> (s_startOffset (p_sentences (ps ! k) ! j) \<le> ?t \<and> ?t \<le> s_endOffset (p_sentences (ps ! k) ! j))
             \<and> (\<forall>i<j. \<not> (s_startOffset (p_sentences (ps ! k) ! i) \<le> ?t
                         \<and> ?t \<le> s_endOffset (p_sentences (ps ! k) ! i)))
           \<longrightarrow> currentSentenceIndex ?loc = int j)
        \<and> (Suc j < length (p_sentences (ps ! k))
             \<and> s_startOffset (p_sentences (ps ! k) ! j) \<le> ?t
             \<and> s_endOffset (p_sentences (ps ! k) ! j) = ?t
             \<and> s_startOffset (p_sentences (ps ! k) ! Suc j) = ?t
           \<longrightarrow> 0 \<le> currentSentenceIndex ?loc \<and> currentSentenceIndex ?loc \<le> int j)"
    if k: "k < length ps" "?inP k" "\<forall>i<k. \<not> ?inP i"
  proof -
    let ?ss = "p_sentences (ps ! k)"
    let ?inS = "\<lambda>i. s_startOffset (?ss ! i) \<le> ?t \<and> ?t \<le> s_endOffset (?ss ! i)"
    note f = first[OF k]
    have s1: "currentSentenceIndex ?loc = int j"
      if "j < length ?ss" "?inS j" "\<forall>i<j. \<not> ?inS i"
      using that f by (simp add: sentenceLoop_first)
    have s2: "0 \<le> currentSentenceIndex ?loc \<and> currentSentenceIndex ?loc \<le> int j"
      if h: "Suc j < length ?ss" "s_startOffset (?ss ! j) \<le> ?t" "s_endOffset (?ss ! j) = ?t"
    proof -
      have "?inS j" using h by simp
      from first_index[of ?inS, OF this] obtain m where m: "m \<le> j" "?inS m" "\<forall>i<m. \<not> ?inS i"
        by blast
      have "sentenceLoop ?t ?ss 0 = int m"
        using m h(1) by (intro sentenceLoop_first) auto
      with f m(1) show ?thesis by simp
    qed
    from f s1 s2 show ?thesis by blast
  qed
  have B: "0 \<le> currentParagraphIndex ?loc \<and> currentParagraphIndex ?loc \<le> int k"
    if h: "Suc k < length ps" "p_startOffset (ps ! k) \<le> ?t" "p_endOffset (ps ! k) = ?t"
  proof -
    have "?inP k" using h by simp
    from first_index[of ?inP, OF this] obtain m where m: "m \<le> k" "?inP m" "\<forall>i<m. \<not> ?inP i"
      by blast
    have "m < length ps" using m(1) h(1) by simp
    from first[OF this m(2,3)] m(1) show ?thesis by simp
  qed
  show ?thesis unfolding Let_def using A B by blast
qed

text \<open>
  In \<open>tieParagraphs\<close> at six seconds, the first paragraph holding the instant is paragraph 0
  and its first sentence holding it is sentence 2; the instant is also the boundary shared
  by paragraphs 1 and 2, and the paragraph selected is not after paragraph 1.  At four
  seconds, the boundary shared by sentences 1 and 2 of paragraph 0, the sentence selected is
  not after sentence 1.
\<close>

theorem locator_first_match_witness:
  "currentParagraphIndex
     (updateCurrentPosition tieParagraphs 6 \<lparr> currentParagraphIndex = - 1, currentSentenceIndex = - 1 \<rparr>) = 0
   \<and> currentSentenceIndex
     (updateCurrentPosition tieParagraphs 6 \<lparr> currentParagraphIndex = - 1, currentSentenceIndex = - 1 \<rparr>) = 2
   \<and> currentParagraphIndex
     (updateCurrentPosition tieParagraphs 6 \<lparr> currentParagraphIndex = - 1, currentSentenceIndex = - 1 \<rparr>) \<le> 1
   \<and> currentSentenceIndex
     (updateCurrentPosition tieParagraphs 4 \<lparr> currentParagraphIndex = - 1, currentSentenceIndex = - 1 \<rparr>) \<le> 1"
proof -
  let ?st = "\<lparr> currentParagraphIndex = - 1, currentSentenceIndex = - 1 \<rparr>"
  have a: "currentParagraphIndex (updateCurrentPosition tieParagraphs 6 ?st) = 0
      \<and> currentSentenceIndex (updateCurrentPosition tieParagraphs 6 ?st) = 2"
    using locator_first_match
      [where k = 0 and ps = tieParagraphs and currentTimestamp = 6 and j = 2 and st = ?st]
    by (simp add: Let_def tieParagraphs_def all_less_two)
  have b: "currentParagraphIndex (updateCurrentPosition tieParagraphs 6 ?st) \<le> 1"
    using locator_first_match
      [where k = 1 and ps = tieParagraphs and currentTimestamp = 6 and j = 0 and st = ?st]
    by (simp add: Let_def tieParagraphs_def)
  have c: "currentSentenceIndex (updateCurrentPosition tieParagraphs 4 ?st) \<le> 1"
    using locator_first_match
      [where k = 0 and ps = tieParagraphs and currentTimestamp = 4 and j = 1 and st = ?st]
    by (simp add: Let_def tieParagraphs_def)
  from a b c show ?thesis by simp
qed

text \<open>
  The claim as stated fails on the transcript \<open>tieLines\<close>: at 6000 ms, the end of paragraph 1
  and the start of paragraph 2, the locator returns paragraph 0.
\<close>

theorem locator_tie_break_counterexample:
  "groupTranscriptIntoParagraphs tieLines = Inr tieParagraphs
   \<and> p_endOffset (tieParagraphs ! 1) = 6 * 1000
   \<and> p_startOffset (tieParagraphs ! 2) = 6 * 1000
   \<and> currentParagraphIndex
        (updateCurrentPosition tieParagraphs 6 \<lparr> currentParagraphIndex = - 1, currentSentenceIndex = - 1 \<rparr>)
      \<noteq> 1"
  by code_simp


text \<open>
  Claim C4 (amended).  On a non-empty paragraph sequence, a current time outside every
  paragraph's range gives the location \<open>(-1, -1)\<close>; when a paragraph is selected and the
  time lies in none of its sentences, only the sentence index is \<open>-1\<close>.  On the empty
  paragraph sequence the locator returns at once and the location stays what it was.
\<close>

theorem locator_no_match:
  "(let t = currentTimestamp * 1000;
        loc = updateCurrentPosition ps currentTimestamp st in
    (ps \<noteq> [] \<and> (\<forall>i<length ps. \<not> (p_startOffset (ps ! i) \<le> t \<and> t \<le> p_endOffset (ps ! i)))
       \<longrightarrow> loc = \<lparr> currentParagraphIndex = - 1, currentSentenceIndex = - 1 \<rparr>)
    \<and> (k < length ps
         \<and> (p_startOffset (ps ! k) \<le> t \<and> t \<le> p_endOffset (ps ! k))
         \<and> (\<forall>i<k. \<not> (p_startOffset (ps ! i) \<le> t \<and> t \<le> p_endOffset (ps ! i)))
         \<and> (\<forall>j<length (p_sentences (ps ! k)).
                \<not> (s_startOffset (p_sentences (ps ! k) ! j) \<le> t \<and> t \<le> s_endOffset (p_sentences (ps ! k) ! j)))
       \<longrightarrow> loc = \<lparr> currentParagraphIndex = int k, currentSentenceIndex = - 1 \<rparr>)
    \<and> (ps = [] \<longrightarrow> loc = st))"
proof -
  let ?t = "currentTimestamp * 1000"
  let ?loc = "updateCurrentPosition ps currentTimestamp st"
  have A: "?loc = \<lparr> currentParagraphIndex = - 1, currentSentenceIndex = - 1 \<rparr>"
    if "ps \<noteq> []" "\<forall>i<length ps. \<not> (p_startOffset (ps ! i) \<le> ?t \<and> ?t \<le> p_endOffset (ps ! i))"
  proof -
    have "paragraphScan ?t ps 0 = (- 1, - 1)"
      using that(2) by (intro paragraphScan_none) auto
    then show ?thesis by (simp add: updateCurrentPosition_nonempty[OF that(1)])
  qed
  have B: "?loc = \<lparr> currentParagraphIndex = int k, currentSentenceIndex = - 1 \<rparr>"
    if "k < length ps" "p_startOffset (ps ! k) \<le> ?t \<and> ?t \<le> p_endOffset (ps ! k)"
      "\<forall>i<k. \<not> (p_startOffset (ps ! i) \<le> ?t \<and> ?t \<le> p_endOffset (ps ! i))"
      "\<forall>j<length (p_sentences (ps ! k)).
          \<not> (s_startOffset (p_sentences (ps ! k) ! j) \<le> ?t \<and> ?t \<le> s_endOffset (p_sentences (ps ! k) ! j))"
  proof -
    from that(1) have ne: "ps \<noteq> []" by auto
    have p: "paragraphScan ?t ps 0 = (int k, sentenceLoop ?t (p_sentences (ps ! k)) 0)"
      using that(1,2,3) by (intro paragraphScan_first) auto
    have s: "sentenceLoop ?t (p_sentences (ps ! k)) 0 = - 1"
      using that(4) by (intro sentenceLoop_none) auto
    show ?thesis by (simp add: updateCurrentPosition_nonempty[OF ne] p s)
  qed
  have C: "?loc = st" if "ps = []"
    using that by (simp add: updateCurrentPosition_empty)
  show ?thesis unfolding Let_def using A B C by blast
qed

text \<open>
  In \<open>gapParagraphs\<close>, seven seconds is outside the only paragraph, and two seconds is
  inside it but between its first two sentences.  Without paragraphs the location stays.
\<close>

theorem locator_no_match_witness:
  "updateCurrentPosition gapParagraphs 7 \<lparr> currentParagraphIndex = 0, currentSentenceIndex = 2 \<rparr>
     = \<lparr> currentParagraphIndex = - 1, currentSentenceIndex = - 1 \<rparr>
   \<and> updateCurrentPosition gapParagraphs 2 \<lparr> currentParagraphIndex = 0, currentSentenceIndex = 0 \<rparr>
     = \<lparr> currentParagraphIndex = 0, currentSentenceIndex = - 1 \<rparr>
   \<and> updateCurrentPosition [] 7 \<lparr> currentParagraphIndex = - 1, currentSentenceIndex = - 1 \<rparr>
     = \<lparr> currentParagraphIndex = - 1, currentSentenceIndex = - 1 \<rparr>
   \<and> groupTranscriptIntoParagraphs gapLines = Inr gapParagraphs"
proof -
  have g: "groupTranscriptIntoParagraphs gapLines = Inr gapParagraphs" by code_simp
  have a: "updateCurrentPosition gapParagraphs 7 \<lparr> currentParagraphIndex = 0, currentSentenceIndex = 2 \<rparr>
     = \<lparr> currentParagraphIndex = - 1, currentSentenceIndex = - 1 \<rparr>"
    using locator_no_match
      [where k = 0 and ps = gapParagraphs and currentTimestamp = 7
         and st = "\<lparr> currentParagraphIndex = 0, currentSentenceIndex = 2 \<rparr>"]
    by (simp add: Let_def gapParagraphs_def)
  have b: "updateCurrentPosition gapParagraphs 2 \<lparr> currentParagraphIndex = 0, currentSentenceIndex = 0 \<rparr>
     = \<lparr> currentParagraphIndex = 0, currentSentenceIndex = - 1 \<rparr>"
    using locator_no_match
      [where k = 0 and ps = gapParagraphs and currentTimestamp = 2
         and st = "\<lparr> currentParagraphIndex = 0, currentSentenceIndex = 0 \<rparr>"]
    by (simp add: Let_def gapParagraphs_def less_Suc_eq all_conj_distrib)
  have c: "updateCurrentPosition [] 7 \<lparr> currentParagraphIndex = - 1, currentSentenceIndex = - 1 \<rparr>
     = \<lparr> currentParagraphIndex = - 1, currentSentenceIndex = - 1 \<rparr>"
    using locator_no_match
      [where k = 0 and ps = "[]" and currentTimestamp = 7
         and st = "\<lparr> currentParagraphIndex = - 1, currentSentenceIndex = - 1 \<rparr>"]
    by (simp add: Let_def)
  from a b c g show ?thesis by simp
qed

text \<open>
  The claim as stated fails on the empty paragraph sequence: every time is outside every
  range, and the location is left as it was.
\<close>

theorem locator_empty_counterexample:
  "updateCurrentPosition [] 0 \<lparr> currentParagraphIndex = 2, currentSentenceIndex = 1 \<rparr>
     = \<lparr> currentParagraphIndex = 2, currentSentenceIndex = 1 \<rparr>
   \<and> updateCurrentPosition [] 0 \<lparr> currentParagraphIndex = 2, currentSentenceIndex = 1 \<rparr>
     \<noteq> \<lparr> currentParagraphIndex = - 1, currentSentenceIndex = - 1 \<rparr>"
  by (simp add: updateCurrentPosition_def)

section \<open>Properties of the scroll animation\<close>

lemma clampedScrollTop_bounds:
  "0 \<le> clampedScrollTop container el" "clampedScrollTop container el \<le> maxScrollTop container"
  by (simp_all add: clampedScrollTop_def maxScrollTop_def)

text \<open>Clamping to a range that holds the current offset brings the target no farther away.\<close>

lemma clamp_closer:
  fixes cur target hi :: rat
  assumes "0 \<le> cur" "cur \<le> hi"
  shows "\<bar>max 0 (min target hi) - cur\<bar> \<le> \<bar>target - cur\<bar>"
  using assms by (auto simp: max_def min_def abs_if)

lemma autoScroll_Some:
  "autoScroll i ref q = Some anim \<longleftrightarrow>
     (\<exists>container el. 0 \<le> i \<and> ref = Some container \<and> q i = Some el
        \<and> scrollHeight container > clientHeight container
        \<and> \<bar>clampedScrollTop container el - scrollTop container\<bar> > 10
        \<and> anim = \<lparr> currentScrollTop = scrollTop container,
                    scrollDistance = clampedScrollTop container el - scrollTop container \<rparr>)"
  by (auto simp: autoScroll_def Let_def split: option.splits if_splits)

text \<open>
  Claim C6.  (a) When the content is not higher than the container, no animation is
  started.  (b) An animation that is started leads from the current offset to the target
  \<open>elementRelativeTop - containerHeight / 2 + elementHeight / 2 - yOffset\<close> clamped to the range
  from 0 to \<open>max 0 (scrollHeight - clientHeight)\<close>.  (c) When the clamped target is within 10
  of the current offset no animation is started; the same holds for the unclamped target
  when the current offset lies in the scroll range.
\<close>

theorem scroll_update:
  "(scrollHeight container \<le> clientHeight container \<longrightarrow> autoScroll i (Some container) q = None)
   \<and> clampedScrollTop container el =
        max 0 (min (elementRelativeTop container el - clientHeight container / 2
                      + offsetHeight el / 2 - yOffset)
                   (max 0 (scrollHeight container - clientHeight container)))
   \<and> 0 \<le> clampedScrollTop container el
   \<and> clampedScrollTop container el \<le> max 0 (scrollHeight container - clientHeight container)
   \<and> (q i = Some el \<and> autoScroll i (Some container) q = Some anim
        \<longrightarrow> currentScrollTop anim = scrollTop container
          \<and> currentScrollTop anim + scrollDistance anim = clampedScrollTop container el
          \<and> \<bar>scrollDistance anim\<bar> > 10)
   \<and> (q i = Some el \<and> \<bar>clampedScrollTop container el - scrollTop container\<bar> \<le> 10
        \<longrightarrow> autoScroll i (Some container) q = None)
   \<and> (q i = Some el \<and> 0 \<le> scrollTop container \<and> scrollTop container \<le> maxScrollTop container
        \<and> \<bar>targetScrollTop container el - scrollTop container\<bar> \<le> 10
        \<longrightarrow> autoScroll i (Some container) q = None)"
proof (intro conjI impI)
  show "autoScroll i (Some container) q = None" if "scrollHeight container \<le> clientHeight container"
    using that by (simp add: autoScroll_def split: option.splits)
  show "clampedScrollTop container el =
        max 0 (min (elementRelativeTop container el - clientHeight container / 2
                      + offsetHeight el / 2 - yOffset)
                   (max 0 (scrollHeight container - clientHeight container)))"
    by (simp add: clampedScrollTop_def targetScrollTop_def maxScrollTop_def)
  show "0 \<le> clampedScrollTop container el" by (rule clampedScrollTop_bounds)
  show "clampedScrollTop container el \<le> max 0 (scrollHeight container - clientHeight container)"
    using clampedScrollTop_bounds(2)[of container el] by (simp add: maxScrollTop_def)
  show "currentScrollTop anim = scrollTop container"
    if "q i = Some el \<and> autoScroll i (Some container) q = Some anim"
    using that by (auto simp: autoScroll_Some)
  show "currentScrollTop anim + scrollDistance anim = clampedScrollTop container el"
    if "q i = Some el \<and> autoScroll i (Some container) q = Some anim"
    using that by (auto simp: autoScroll_Some)
  show "\<bar>scrollDistance anim\<bar> > 10"
    if "q i = Some el \<and> autoScroll i (Some container) q = Some anim"
    using that by (auto simp: autoScroll_Some)
  show "autoScroll i (Some container) q = None"
    if "q i = Some el \<and> \<bar>clampedScrollTop container el - scrollTop container\<bar> \<le> 10"
    using that by (simp add: autoScroll_def Let_def)
  show "autoScroll i (Some container) q = None"
    if h: "q i = Some el \<and> 0 \<le> scrollTop container \<and> scrollTop container \<le> maxScrollTop container
        \<and> \<bar>targetScrollTop container el - scrollTop container\<bar> \<le> 10"
  proof -
    have "\<bar>clampedScrollTop container el - scrollTop container\<bar>
            \<le> \<bar>targetScrollTop container el - scrollTop container\<bar>"
      unfolding clampedScrollTop_def using h by (intro clamp_closer) simp_all
    with h have "\<bar>clampedScrollTop container el - scrollTop container\<bar> \<le> 10" by simp
    with h show ?thesis by (simp add: autoScroll_def Let_def)
  qed
qed

text \<open>
  A container 400 high with content 2000 high, scrolled to 300: an element whose target is
  304 starts no animation, and one whose target is 630 starts one over the distance 330.
  Content 300 high in the same container starts none.
\<close>

theorem scroll_update_witness:
  "autoScroll 2 (Some \<lparr> clientHeight = 400, scrollHeight = 2000, containerRectTop = 0, scrollTop = 300 \<rparr>)
     (\<lambda>i. Some \<lparr> elementRectTop = 74, offsetHeight = 60 \<rparr>) = None
   \<and> clampedScrollTop \<lparr> clientHeight = 400, scrollHeight = 2000, containerRectTop = 0, scrollTop = 300 \<rparr>
        \<lparr> elementRectTop = 74, offsetHeight = 60 \<rparr> = 304
   \<and> autoScroll 2 (Some \<lparr> clientHeight = 400, scrollHeight = 2000, containerRectTop = 0, scrollTop = 300 \<rparr>)
     (\<lambda>i. Some \<lparr> elementRectTop = 400, offsetHeight = 60 \<rparr>)
       = Some \<lparr> currentScrollTop = 300, scrollDistance = 330 \<rparr>
   \<and> clampedScrollTop \<lparr> clientHeight = 400, scrollHeight = 2000, containerRectTop = 0, scrollTop = 300 \<rparr>
        \<lparr> elementRectTop = 400, offsetHeight = 60 \<rparr> = 630
   \<and> autoScroll 2 (Some \<lparr> clientHeight = 400, scrollHeight = 300, containerRectTop = 0, scrollTop = 0 \<rparr>)
     (\<lambda>i. Some \<lparr> elementRectTop = 400, offsetHeight = 60 \<rparr>) = None"
proof -
  let ?c = "\<lparr> clientHeight = 400, scrollHeight = 2000, containerRectTop = 0, scrollTop = 300 \<rparr>"
  let ?c2 = "\<lparr> clientHeight = 400, scrollHeight = 300, containerRectTop = 0, scrollTop = 0 \<rparr>"
  let ?e = "\<lparr> elementRectTop = 74, offsetHeight = 60 \<rparr>"
  let ?e2 = "\<lparr> elementRectTop = 400, offsetHeight = 60 \<rparr>"
  let ?a = "\<lparr> currentScrollTop = 300, scrollDistance = 330 \<rparr>"
  have v: "clampedScrollTop ?c ?e = 304"
    by (simp add: clampedScrollTop_def targetScrollTop_def maxScrollTop_def elementRelativeTop_def yOffset_def)
  have t: "targetScrollTop ?c ?e = 304" "maxScrollTop ?c = 1600"
    by (simp_all add: targetScrollTop_def maxScrollTop_def elementRelativeTop_def yOffset_def)
  have a: "autoScroll 2 (Some ?c) (\<lambda>i. Some ?e) = None"
    using scroll_update[where container = ?c and el = ?e and i = 2 and q = "\<lambda>i. Some ?e"]
    by (simp add: v)
  have a': "autoScroll 2 (Some ?c) (\<lambda>i. Some ?e) = None"
    using scroll_update[where container = ?c and el = ?e and i = 2 and q = "\<lambda>i. Some ?e"]
    by (simp add: t)
  have b: "autoScroll 2 (Some ?c2) (\<lambda>i. Some ?e2) = None"
    using scroll_update[where container = ?c2 and el = ?e2 and i = 2 and q = "\<lambda>i. Some ?e2"]
    by simp
  have c: "autoScroll 2 (Some ?c) (\<lambda>i. Some ?e2) = Some ?a"
    by (simp add: autoScroll_def clampedScrollTop_def targetScrollTop_def maxScrollTop_def
        elementRelativeTop_def yOffset_def)
  have d: "clampedScrollTop ?c ?e2 = 630"
    using scroll_update[where container = ?c and el = ?e2 and i = 2 and q = "\<lambda>i. Some ?e2"
        and anim = ?a] c
    by simp
  from v a a' b c d show ?thesis by simp
qed










section \<open>Properties of the URL classifiers\<close>

text \<open>\<open>js_includes\<close> holds exactly of the contiguous substrings.\<close>

lemma starts_with_iff: "starts_with s p \<longleftrightarrow> (\<exists>suf. s = p @ suf)"
  by (induction s p rule: starts_with.induct) auto

lemma js_includes_iff: "js_includes s p \<longleftrightarrow> (\<exists>pre suf. s = pre @ p @ suf)"
proof (induction s)
  case Nil
  show ?case by auto
next
  case (Cons c cs)
  have "(\<exists>pre suf. c # cs = pre @ p @ suf) \<longleftrightarrow>
        (\<exists>suf. c # cs = p @ suf) \<or> (\<exists>pre suf. cs = pre @ p @ suf)"
  proof
    assume "\<exists>pre suf. c # cs = pre @ p @ suf"
    then obtain pre suf where e: "c # cs = pre @ p @ suf" by blast
    show "(\<exists>suf. c # cs = p @ suf) \<or> (\<exists>pre suf. cs = pre @ p @ suf)"
    proof (cases pre)
      case Nil
      with e show ?thesis by auto
    next
      case (Cons a pre')
      with e have "cs = pre' @ p @ suf" by simp
      then show ?thesis by blast
    qed
  next
    assume "(\<exists>suf. c # cs = p @ suf) \<or> (\<exists>pre suf. cs = pre @ p @ suf)"
    then show "\<exists>pre suf. c # cs = pre @ p @ suf"
    proof
      assume "\<exists>suf. c # cs = p @ suf"
      then obtain suf where "c # cs = [] @ p @ suf" by auto
      then show ?thesis by blast
    next
      assume "\<exists>pre suf. cs = pre @ p @ suf"
      then obtain pre suf where "c # cs = (c # pre) @ p @ suf" by auto
      then show ?thesis by blast
    qed
  qed
  with Cons show ?case by (simp add: starts_with_iff)
qed

lemma try_catch_returns: "\<exists>v. try_catch body handler = Inr v"
  by (cases body) (simp_all add: try_catch_def)

text \<open>
  Claim C10.  Whatever the URL constructor does on a string, \<open>getVideoId\<close> and
  \<open>isYouTubeUrl\<close> return normally.  When the constructor throws they return \<open>null\<close> and
  \<open>false\<close>.  When it returns a URL whose host name includes neither \<open>youtube.com\<close> nor
  \<open>youtu.be\<close>, \<open>getVideoId\<close> returns \<open>null\<close>; when the host name includes \<open>youtu.be\<close> it
  returns the path without its first character, the leading slash; otherwise it returns
  the first value of the query parameter \<open>v\<close>, or \<open>null\<close> when there is none.
\<close>

theorem url_classifiers:
  "(\<exists>r. getVideoId newURL url = Inr r)
   \<and> (\<exists>b. isYouTubeUrl newURL url = Inr b)
   \<and> (newURL url = Inl e \<longrightarrow>
        getVideoId newURL url = Inr None \<and> isYouTubeUrl newURL url = Inr False)
   \<and> (newURL url = Inr urlObj \<longrightarrow>
        isYouTubeUrl newURL url =
          Inr (js_includes (hostname urlObj) ''youtube.com'' \<or> js_includes (hostname urlObj) ''youtu.be'')
        \<and> (\<not> js_includes (hostname urlObj) ''youtube.com'' \<and> \<not> js_includes (hostname urlObj) ''youtu.be''
             \<longrightarrow> getVideoId newURL url = Inr None)
        \<and> (js_includes (hostname urlObj) ''youtu.be''
             \<longrightarrow> getVideoId newURL url = Inr (Some (drop 1 (pathname urlObj)))
               \<and> (pathname urlObj = CHR ''/'' # rest \<longrightarrow> getVideoId newURL url = Inr (Some rest)))
        \<and> (js_includes (hostname urlObj) ''youtube.com'' \<and> \<not> js_includes (hostname urlObj) ''youtu.be''
             \<longrightarrow> getVideoId newURL url = Inr (searchParams_get (searchParams urlObj) ''v'')
               \<and> (''v'' \<notin> fst ` set (searchParams urlObj) \<longrightarrow> getVideoId newURL url = Inr None)))"
proof (intro conjI impI)
  show "\<exists>r. getVideoId newURL url = Inr r"
    unfolding getVideoId_def by (rule try_catch_returns)
  show "\<exists>b. isYouTubeUrl newURL url = Inr b"
    unfolding isYouTubeUrl_def by (rule try_catch_returns)
  show "getVideoId newURL url = Inr None" if "newURL url = Inl e"
    using that by (simp add: getVideoId_def try_catch_def)
  show "isYouTubeUrl newURL url = Inr False" if "newURL url = Inl e"
    using that by (simp add: isYouTubeUrl_def try_catch_def)
  show "isYouTubeUrl newURL url =
          Inr (js_includes (hostname urlObj) ''youtube.com'' \<or> js_includes (hostname urlObj) ''youtu.be'')"
    if "newURL url = Inr urlObj"
    using that by (simp add: isYouTubeUrl_def try_catch_def)
  show "getVideoId newURL url = Inr None"
    if "newURL url = Inr urlObj"
      "\<not> js_includes (hostname urlObj) ''youtube.com'' \<and> \<not> js_includes (hostname urlObj) ''youtu.be''"
    using that by (simp add: getVideoId_def try_catch_def)
  show "getVideoId newURL url = Inr (Some (drop 1 (pathname urlObj)))"
    if "newURL url = Inr urlObj" "js_includes (hostname urlObj) ''youtu.be''"
    using that by (simp add: getVideoId_def try_catch_def substring1_def)
  show "getVideoId newURL url = Inr (Some rest)"
    if "newURL url = Inr urlObj" "js_includes (hostname urlObj) ''youtu.be''"
      "pathname urlObj = CHR ''/'' # rest"
    using that by (simp add: getVideoId_def try_catch_def substring1_def)
  show "getVideoId newURL url = Inr (searchParams_get (searchParams urlObj) ''v'')"
    if "newURL url = Inr urlObj"
      "js_includes (hostname urlObj) ''youtube.com'' \<and> \<not> js_includes (hostname urlObj) ''youtu.be''"
    using that by (simp add: getVideoId_def try_catch_def)
  show "getVideoId newURL url = Inr None"
    if "newURL url = Inr urlObj"
      "js_includes (hostname urlObj) ''youtube.com'' \<and> \<not> js_includes (hostname urlObj) ''youtu.be''"
      "''v'' \<notin> fst ` set (searchParams urlObj)"
  proof -
    have "searchParams_get ps ''v'' = None" if "''v'' \<notin> fst ` set ps" for ps
      using that by (induction ps) auto
    with that show ?thesis by (simp add: getVideoId_def try_catch_def)
  qed
qed

text \<open>
  A constructor that parses four strings and throws on every other one: a short link, a
  watch link, a link without the parameter \<open>v\<close>, a link to another site, and a string that
  is not a URL.
\<close>

theorem url_classifiers_witness:
  "(let newURL = (\<lambda>s. if s = ''https://youtu.be/abc123''
                     then Inr \<lparr> hostname = ''youtu.be'', pathname = ''/abc123'', searchParams = [] \<rparr>
                   else if s = ''https://www.youtube.com/watch?t=5&v=xyz''
                     then Inr \<lparr> hostname = ''www.youtube.com'', pathname = ''/watch'',
                               searchParams = [(''t'', ''5''), (''v'', ''xyz'')] \<rparr>
                   else if s = ''https://www.youtube.com/feed?t=5''
                     then Inr \<lparr> hostname = ''www.youtube.com'', pathname = ''/feed'',
                               searchParams = [(''t'', ''5'')] \<rparr>
                   else if s = ''https://example.org/watch?v=xyz''
                     then Inr \<lparr> hostname = ''example.org'', pathname = ''/watch'',
                               searchParams = [(''v'', ''xyz'')] \<rparr>
                   else Inl TypeError) in
    getVideoId newURL ''https://youtu.be/abc123'' = Inr (Some ''abc123'')
    \<and> getVideoId newURL ''https://www.youtube.com/watch?t=5&v=xyz'' = Inr (Some ''xyz'')
    \<and> getVideoId newURL ''https://www.youtube.com/feed?t=5'' = Inr None
    \<and> getVideoId newURL ''https://example.org/watch?v=xyz'' = Inr None
    \<and> isYouTubeUrl newURL ''https://example.org/watch?v=xyz'' = Inr False
    \<and> isYouTubeUrl newURL ''https://youtu.be/abc123'' = Inr True
    \<and> getVideoId newURL ''not a url'' = Inr None
    \<and> isYouTubeUrl newURL ''not a url'' = Inr False)"
proof -
  let ?newURL = "\<lambda>s. if s = ''https://youtu.be/abc123''
                     then Inr \<lparr> hostname = ''youtu.be'', pathname = ''/abc123'', searchParams = [] \<rparr>
                   else if s = ''https://www.youtube.com/watch?t=5&v=xyz''
                     then Inr \<lparr> hostname = ''www.youtube.com'', pathname = ''/watch'',
                               searchParams = [(''t'', ''5''), (''v'', ''xyz'')] \<rparr>
                   else if s = ''https://www.youtube.com/feed?t=5''
                     then Inr \<lparr> hostname = ''www.youtube.com'', pathname = ''/feed'',
                               searchParams = [(''t'', ''5'')] \<rparr>
                   else if s = ''https://example.org/watch?v=xyz''
                     then Inr \<lparr> hostname = ''example.org'', pathname = ''/watch'',
                               searchParams = [(''v'', ''xyz'')] \<rparr>
                   else Inl TypeError"
  have a: "getVideoId ?newURL ''https://youtu.be/abc123'' = Inr (Some ''abc123'')
      \<and> isYouTubeUrl ?newURL ''https://youtu.be/abc123'' = Inr True"
    using url_classifiers[where newURL = ?newURL and url = "''https://youtu.be/abc123''"
        and urlObj = "\<lparr> hostname = ''youtu.be'', pathname = ''/abc123'', searchParams = [] \<rparr>"
        and rest = "''abc123''"]
    by simp
  have b: "getVideoId ?newURL ''https://www.youtube.com/watch?t=5&v=xyz'' = Inr (Some ''xyz'')"
    using url_classifiers[where newURL = ?newURL and url = "''https://www.youtube.com/watch?t=5&v=xyz''"
        and urlObj = "\<lparr> hostname = ''www.youtube.com'', pathname = ''/watch'',
                               searchParams = [(''t'', ''5''), (''v'', ''xyz'')] \<rparr>"]
    by simp
  have b': "getVideoId ?newURL ''https://www.youtube.com/feed?t=5'' = Inr None"
    using url_classifiers[where newURL = ?newURL and url = "''https://www.youtube.com/feed?t=5''"
        and urlObj = "\<lparr> hostname = ''www.youtube.com'', pathname = ''/feed'',
                               searchParams = [(''t'', ''5'')] \<rparr>"]
    by simp
  have c: "getVideoId ?newURL ''https://example.org/watch?v=xyz'' = Inr None
      \<and> isYouTubeUrl ?newURL ''https://example.org/watch?v=xyz'' = Inr False"
    using url_classifiers[where newURL = ?newURL and url = "''https://example.org/watch?v=xyz''"
        and urlObj = "\<lparr> hostname = ''example.org'', pathname = ''/watch'',
                               searchParams = [(''v'', ''xyz'')] \<rparr>"]
    by simp
  have d: "getVideoId ?newURL ''not a url'' = Inr None \<and> isYouTubeUrl ?newURL ''not a url'' = Inr False"
    using url_classifiers[where newURL = ?newURL and url = "''not a url''" and e = TypeError]
    by simp
  from a b b' c d show ?thesis unfolding Let_def by simp
qed

section \<open>Properties of the timestamp functions\<close>

lemma char_of_digit_inj:
  "a < 10 \<Longrightarrow> (of_char (char_of (48 + a :: nat)) :: nat) = 48 + a"
  by (simp add: of_char_of)







































end
